theory Spec2Isabelle
  imports Complex_Main
begin

section \<open>Strings and thrown errors\<close>

text \<open>
  A JavaScript string is modelled as a \<^typ>\<open>string\<close>: one \<^typ>\<open>char\<close> per code unit,
  for code units below 256. The code only tells apart the newline, the backtick, the colon,
  the word characters, the characters of its literals and the white space removed by
  \<^verbatim>\<open>trim\<close>; below 256 that white space is TAB, LF, VT, FF, CR, SP and NBSP.
\<close>

definition is_space :: "char \<Rightarrow> bool" where
  "is_space c \<longleftrightarrow> c \<in> {CHR 0x09, CHR 0x0A, CHR 0x0B, CHR 0x0C, CHR 0x0D, CHR 0x20, CHR 0xA0}"

definition trim :: "string \<Rightarrow> string" where
  "trim s = rev (dropWhile is_space (rev (dropWhile is_space s)))"

definition startsWith :: "string \<Rightarrow> string \<Rightarrow> bool" where
  "startsWith s p \<longleftrightarrow> take (length p) s = p"

text \<open>\<^verbatim>\<open>s.indexOf(p)\<close>: the least position where \<open>p\<close> occurs, \<open>None\<close> for \<open>-1\<close>.\<close>

fun indexOf :: "string \<Rightarrow> string \<Rightarrow> nat option" where
  "indexOf [] p = (if p = [] then Some 0 else None)"
| "indexOf (c # s) p =
     (if startsWith (c # s) p then Some 0 else map_option Suc (indexOf s p))"

text \<open>\<^verbatim>\<open>s.includes(p)\<close>.\<close>

definition includes_str :: "string \<Rightarrow> string \<Rightarrow> bool" where
  "includes_str s p \<longleftrightarrow> indexOf s p \<noteq> None"

text \<open>\<^verbatim>\<open>s.slice(-k)\<close> for a positive \<open>k\<close>: the last \<open>k\<close> code units (all of \<open>s\<close> when shorter).\<close>

definition slice_last :: "nat \<Rightarrow> string \<Rightarrow> string" where
  "slice_last k s = drop (length s - k) s"

text \<open>\<^verbatim>\<open>s.slice(0, -k)\<close>: all but the last \<open>k\<close> code units.\<close>

definition slice_but_last :: "nat \<Rightarrow> string \<Rightarrow> string" where
  "slice_but_last k s = take (length s - k) s"

text \<open>\<^verbatim>\<open>s.split("\n")\<close>: never empty; the last element is the text after the last newline.\<close>

fun split_nl :: "string \<Rightarrow> string list" where
  "split_nl [] = [[]]"
| "split_nl (c # s) =
     (if c = CHR ''\<newline>'' then [] # split_nl s
      else (case split_nl s of [] \<Rightarrow> [[c]] | l # ls \<Rightarrow> (c # l) # ls))"

text \<open>Decimal digits of a number, as a template literal prints it.\<close>

fun digits :: "nat \<Rightarrow> string" where
  "digits n = (if n < 10 then [char_of (48 + n)] else digits (n div 10) @ [char_of (48 + n mod 10)])"

declare digits.simps [simp del]

text \<open>
  Everything thrown in this program is an \<^verbatim>\<open>Error\<close> object (or the runtime's
  \<^verbatim>\<open>DOMException\<close> of an aborted request, which is an instance of \<^verbatim>\<open>Error\<close> as well);
  the callers read its \<^verbatim>\<open>name\<close> and its \<^verbatim>\<open>message\<close> only.
\<close>

record js_error =
  name :: string
  message :: string

text \<open>\<^verbatim>\<open>new Error(msg)\<close>.\<close>

definition Error :: "string \<Rightarrow> js_error" where
  "Error msg = \<lparr>name = ''Error'', message = msg\<rparr>"

text \<open>
  What \<^verbatim>\<open>fetch\<close> and \<^verbatim>\<open>reader.read()\<close> reject with once the request's
  \<^verbatim>\<open>AbortController\<close> has aborted, by \<^verbatim>\<open>abort()\<close> or by the timer of
  \<^verbatim>\<open>chatStream\<close>: the runtime's exception named \<^verbatim>\<open>AbortError\<close>; its message is the runtime's.
\<close>

definition AbortError :: "string \<Rightarrow> js_error" where
  "AbortError msg = \<lparr>name = ''AbortError'', message = msg\<rparr>"

section \<open>The conversation log: \<^verbatim>\<open>core/agent.ts\<close>\<close>

datatype role = System | User | Assistant

record Message =
  role :: role
  content :: string

definition SYSTEM_PROMPT :: string where
  \<open>SYSTEM_PROMPT =
     ''You are Cody, a friendly and expert coding assistant.\<newline>'' @
     ''\<newline>'' @
     ''## Your Personality:\<newline>'' @
     ''- You're helpful, conversational, and knowledgeable\<newline>'' @
     ''- You chat naturally when users want to talk\<newline>'' @
     ''- You switch to coding mode when users need code\<newline>'' @
     ''- You're concise but not robotic\<newline>'' @
     ''\<newline>'' @
     ''## When to Code:\<newline>'' @
     ''Only use the file format when users:\<newline>'' @
     ''- Ask you to create, write, or generate files\<newline>'' @
     ''- Ask you to build something\<newline>'' @
     ''- Request code for a specific purpose\<newline>'' @
     ''- Say "make", "create", "build", "write code", etc.\<newline>'' @
     ''\<newline>'' @
     ''## When to Chat:\<newline>'' @
     ''Just respond normally when users:\<newline>'' @
     ''- Say hi, hello, or greet you\<newline>'' @
     ''- Ask questions about concepts\<newline>'' @
     ''- Want explanations or advice\<newline>'' @
     ''- Are having a conversation\<newline>'' @
     ''\<newline>'' @
     ''## File Creation Format:\<newline>'' @
     ''When creating files, use this exact format:\<newline>'' @
     ''\<newline>'' @
     ''```python:script.py\<newline>'' @
     ''# code here\<newline>'' @
     ''```\<newline>'' @
     ''\<newline>'' @
     ''```typescript:src/utils/helper.ts\<newline>'' @
     ''// code here\<newline>'' @
     ''```\<newline>'' @
     ''\<newline>'' @
     ''Format: ```language:path/to/filename.ext\<newline>'' @
     ''\<newline>'' @
     ''## Coding Rules (when coding):\<newline>'' @
     ''1. Write complete, functional code\<newline>'' @
     ''2. Include error handling\<newline>'' @
     ''3. Follow best practices\<newline>'' @
     ''4. Create full project structures when needed\<newline>'' @
     ''5. Be concise - code speaks louder than explanations\<newline>'' @
     ''\<newline>'' @
     ''## Your Expertise:\<newline>'' @
     ''- Full-stack web development\<newline>'' @
     ''- System scripts and automation\<newline>'' @
     ''- APIs, CLIs, games, data processing\<newline>'' @
     ''- Any programming language or framework\<newline>'' @
     ''\<newline>'' @
     ''You're a developer's companion - chat when they want to chat, code when they need code.''\<close>

text \<open>
  \<^verbatim>\<open>conversationHistory.indexOf(userMsg)\<close> compares objects by identity, so every message
  object of the log carries the reference it was allocated at; \<open>nextRef\<close> is the allocator.
  The agent's \<^verbatim>\<open>client\<close> appears through the outcome of its calls, which each
  operation takes as an argument.
\<close>

type_synonym ref = nat

record CodingAgent =
  conversationHistory :: "(ref \<times> Message) list"
  pendingUserMessage :: "(ref \<times> Message) option"
  nextRef :: ref

text \<open>An object literal \<^verbatim>\<open>{ role: r, content: c }\<close>: a new object at a fresh reference.\<close>

definition new_message :: "CodingAgent \<Rightarrow> role \<Rightarrow> string \<Rightarrow> (ref \<times> Message) \<times> CodingAgent" where
  "new_message a r c = ((nextRef a, \<lparr>role = r, content = c\<rparr>), a\<lparr>nextRef := Suc (nextRef a)\<rparr>)"

text \<open>\<^verbatim>\<open>Array.prototype.indexOf\<close> on objects: the first index holding the same reference.\<close>

fun indexOf_obj :: "(ref \<times> Message) list \<Rightarrow> (ref \<times> Message) \<Rightarrow> nat option" where
  "indexOf_obj [] x = None"
| "indexOf_obj (y # ys) x = (if fst y = fst x then Some 0 else map_option Suc (indexOf_obj ys x))"

text \<open>\<^verbatim>\<open>xs.splice(idx, 1)\<close> for an index within the array.\<close>

definition splice1 :: "nat \<Rightarrow> 'a list \<Rightarrow> 'a list" where
  "splice1 idx xs = take idx xs @ drop (Suc idx) xs"

text \<open>\<^verbatim>\<open>xs.push(x)\<close> on the log.\<close>

definition push :: "(ref \<times> Message) \<Rightarrow> CodingAgent \<Rightarrow> CodingAgent" where
  "push x a = a\<lparr>conversationHistory := conversationHistory a @ [x]\<rparr>"

text \<open>The constructor: the log holds the system message only.\<close>

definition constructor :: CodingAgent where
  "constructor =
     \<lparr>conversationHistory = [(0, \<lparr>role = System, content = SYSTEM_PROMPT\<rparr>)],
      pendingUserMessage = None, nextRef = 1\<rparr>"

text \<open>
  \<^verbatim>\<open>send\<close>: the outcome of \<^verbatim>\<open>client.chat\<close> is the argument \<open>r\<close>, \<open>Inl\<close> what it threw,
  \<open>Inr\<close> the reply. The reply is pushed whatever it is, also the empty one;
  \<^verbatim>\<open>pop()\<close> removes the last element.
\<close>

definition send :: "CodingAgent \<Rightarrow> string \<Rightarrow> js_error + string \<Rightarrow> CodingAgent \<times> (js_error + string)" where
  "send a userMessage r =
     (let (userMsg, a1) = new_message a User userMessage;
          a2 = push userMsg a1
      in case r of
           Inr response \<Rightarrow>
             (let (m, a3) = new_message a2 Assistant response in (push m a3, Inr response))
         | Inl error \<Rightarrow>
             (a2\<lparr>conversationHistory := butlast (conversationHistory a2)\<rparr>, Inl error))"

text \<open>
  \<^verbatim>\<open>sendStream\<close>, driven to its end by its consumer. The stream \<open>s\<close> is what
  \<^verbatim>\<open>client.chatStream\<close> did: the chunks it yielded, then \<open>None\<close> when it completed or
  \<open>Some e\<close> when it threw \<open>e\<close>. The result is the agent after the \<^verbatim>\<open>finally\<close> block,
  the chunks yielded on and the error rethrown.
\<close>

type_synonym stream = "string list \<times> js_error option"

definition sendStream :: "CodingAgent \<Rightarrow> string \<Rightarrow> stream \<Rightarrow> CodingAgent \<times> stream" where
  "sendStream a userMessage s =
     (let (userMsg, a1) = new_message a User userMessage;
          a2 = push userMsg (a1\<lparr>pendingUserMessage := Some userMsg\<rparr>);
          fullResponse = concat (fst s);
          success = (snd s = None);
          a3 = (if success \<and> fullResponse \<noteq> [] then
                  (let (m, a') = new_message a2 Assistant fullResponse in push m a')
                else if \<not> success then
                  (case indexOf_obj (conversationHistory a2) userMsg of
                     Some idx \<Rightarrow> a2\<lparr>conversationHistory := splice1 idx (conversationHistory a2)\<rparr>
                   | None \<Rightarrow> a2)
                else a2)
      in (a3\<lparr>pendingUserMessage := None\<rparr>, s))"

definition clearHistory :: "CodingAgent \<Rightarrow> CodingAgent" where
  "clearHistory a =
     (let (m, a1) = new_message a System SYSTEM_PROMPT
      in a1\<lparr>conversationHistory := [m], pendingUserMessage := None\<rparr>)"

text \<open>\<^verbatim>\<open>conversationHistory[0]?.role === "system"\<close> is false on an empty log.\<close>

definition updateSystemPrompt :: "CodingAgent \<Rightarrow> string \<Rightarrow> CodingAgent" where
  "updateSystemPrompt a addition =
     (case conversationHistory a of
        (r, m) # rest \<Rightarrow>
          (if role m = System then
             a\<lparr>conversationHistory :=
                 (r, m\<lparr>content := SYSTEM_PROMPT @ ''\<newline>\<newline>'' @ addition\<rparr>) # rest\<rparr>
           else a)
      | [] \<Rightarrow> a)"

text \<open>The operations on an agent, each with the outcome of the client call it makes.\<close>

datatype agent_op =
    Send string "js_error + string"
  | SendStream string stream
  | ClearHistory
  | UpdateSystemPrompt string

fun apply_op :: "CodingAgent \<Rightarrow> agent_op \<Rightarrow> CodingAgent" where
  "apply_op a (Send userMessage r) = fst (send a userMessage r)"
| "apply_op a (SendStream userMessage s) = fst (sendStream a userMessage s)"
| "apply_op a ClearHistory = clearHistory a"
| "apply_op a (UpdateSystemPrompt addition) = updateSystemPrompt a addition"

definition run_ops :: "agent_op list \<Rightarrow> CodingAgent" where
  "run_ops ops = foldl apply_op constructor ops"

section \<open>The block extractor and the turn: \<^verbatim>\<open>Handler.ts\<close>\<close>

text \<open>\<^verbatim>\<open>\w\<close> of a regular expression without flags: \<^verbatim>\<open>[A-Za-z0-9_]\<close>.\<close>

definition is_word :: "char \<Rightarrow> bool" where
  "is_word c \<longleftrightarrow>
     (let n = (of_char c :: nat)
      in (48 \<le> n \<and> n \<le> 57) \<or> (65 \<le> n \<and> n \<le> 90) \<or> n = 95 \<or> (97 \<le> n \<and> n \<le> 122))"

definition not_nl :: "char \<Rightarrow> bool" where
  "not_nl c \<longleftrightarrow> c \<noteq> CHR ''\<newline>''"

text \<open>
  The opening pattern, three backticks then \<^verbatim>\<open>(\w+):([^\n]+)\n\<close>, tried at the start of \<open>s\<close>.
  Both quantifiers are greedy, and each is followed by a character outside its own class (a
  colon after the word characters, a newline after the others), so backtracking to a
  shorter run can never succeed: the pattern matches here exactly when the longest run
  of word characters is not empty and is followed by a colon, and the longest run without
  a newline after that colon is not empty and is followed by a newline. The result is
  \<^verbatim>\<open>match[0]\<close>, \<^verbatim>\<open>match[1]\<close> and \<^verbatim>\<open>match[2]\<close>.
\<close>

definition match_here :: "string \<Rightarrow> (string \<times> string \<times> string) option" where
  "match_here s =
     (if startsWith s ''```'' then
        (let r = drop 3 s; w = takeWhile is_word r; r1 = dropWhile is_word r
         in if w \<noteq> [] \<and> startsWith r1 '':'' then
              (let r2 = drop 1 r1; p = takeWhile not_nl r2; r3 = dropWhile not_nl r2
               in if p \<noteq> [] \<and> r3 \<noteq> [] then Some (''```'' @ w @ '':'' @ p @ ''\<newline>'', w, p)
                  else None)
            else None)
      else None)"

text \<open>\<^verbatim>\<open>buffer.match(re)\<close> without the \<^verbatim>\<open>g\<close> flag: the match at the leftmost position that has one.\<close>

fun regex_match :: "string \<Rightarrow> (string \<times> string \<times> string) option" where
  "regex_match [] = match_here []"
| "regex_match (c # s) =
     (case match_here (c # s) of Some m \<Rightarrow> Some m | None \<Rightarrow> regex_match s)"

record PendingFile =
  filename :: string
  content :: string
  fullPath :: string
  isNew :: bool

text \<open>
  The file system and the \<^verbatim>\<open>path\<close> module, as the extractor and the turn read them:
  they belong to the runtime, and stay fixed during one turn.
\<close>

record Env =
  existsSync :: "string \<Rightarrow> bool"
  isAbsolute :: "string \<Rightarrow> bool"
  path_join :: "string \<Rightarrow> string \<Rightarrow> string"
  getFullStructure :: "string \<Rightarrow> string"

record CodeExtractor =
  buffer :: string
  inBlock :: bool
  filename :: string
  code :: string
  dir :: string
  extractedFiles :: "PendingFile list"

definition new_CodeExtractor :: "string \<Rightarrow> CodeExtractor" where
  "new_CodeExtractor d =
     \<lparr>buffer = [], inBlock = False, CodeExtractor.filename = [], code = [], dir = d,
      extractedFiles = []\<rparr>"

text \<open>The artifact of the current block, as \<^verbatim>\<open>process\<close> and \<^verbatim>\<open>flush\<close> both build it.\<close>

definition current_file :: "Env \<Rightarrow> CodeExtractor \<Rightarrow> PendingFile" where
  "current_file E this =
     (let fullPath = (if isAbsolute E (CodeExtractor.filename this) then CodeExtractor.filename this
                      else path_join E (dir this) (CodeExtractor.filename this))
      in \<lparr>PendingFile.filename = CodeExtractor.filename this,
          PendingFile.content = trim (code this),
          fullPath = fullPath,
          isNew = (\<not> existsSync E fullPath)\<rparr>)"

text \<open>
  \<^verbatim>\<open>process\<close>. The notification \<^verbatim>\<open>UI.toolCall\<close> only prints. When
  \<^verbatim>\<open>indexOf(match[0])\<close> is \<open>-1\<close> the slice starts at \<open>match[0].length - 1\<close>.
\<close>

function process :: "Env \<Rightarrow> CodeExtractor \<Rightarrow> string \<Rightarrow> CodeExtractor" where
  "process E this chunk =
     (let this1 = this\<lparr>buffer := buffer this @ chunk\<rparr> in
      if \<not> inBlock this1 then
        (case regex_match (buffer this1) of
           Some (m0, m1, m2) \<Rightarrow>
             this1\<lparr>inBlock := True, CodeExtractor.filename := trim m2, code := [],
                   buffer := drop ((case indexOf (buffer this1) m0 of
                                      Some i \<Rightarrow> i + length m0 | None \<Rightarrow> length m0 - 1))
                                  (buffer this1)\<rparr>
         | None \<Rightarrow>
             (if length (buffer this1) > 200
              then this1\<lparr>buffer := slice_last 200 (buffer this1)\<rparr> else this1))
      else
        (case indexOf (buffer this1) ''```'' of
           Some endIndex \<Rightarrow>
             (let this2 = this1\<lparr>code := code this1 @ take endIndex (buffer this1)\<rparr>;
                  this3 = this2\<lparr>extractedFiles := extractedFiles this2 @ [current_file E this2],
                                buffer := drop (endIndex + 3) (buffer this2),
                                inBlock := False, code := [], CodeExtractor.filename := []\<rparr>
              in if length (buffer this3) > 0 then process E this3 [] else this3)
         | None \<Rightarrow>
             (if length (buffer this1) > 10
              then this1\<lparr>code := code this1 @ slice_but_last 10 (buffer this1),
                         buffer := slice_last 10 (buffer this1)\<rparr>
              else this1)))"
  by pat_completeness auto
termination
  by (relation "measure (\<lambda>(E, this, chunk). if inBlock this then 1 else 0)") auto

declare process.simps [simp del]

definition reset :: "CodeExtractor \<Rightarrow> CodeExtractor" where
  "reset this =
     this\<lparr>buffer := [], inBlock := False, code := [], CodeExtractor.filename := [],
          extractedFiles := []\<rparr>"

text \<open>
  \<^verbatim>\<open>flush\<close>, on the module's list \<^verbatim>\<open>pendingFiles\<close>: the new list and the extractor after
  \<^verbatim>\<open>reset\<close>. A string is truthy when it is not empty.
\<close>

definition flush :: "Env \<Rightarrow> PendingFile list \<Rightarrow> CodeExtractor \<Rightarrow> PendingFile list \<times> CodeExtractor" where
  "flush E pendingFiles this =
     (let this1 = (if inBlock this \<and> code this \<noteq> [] then
                     (let this' = this\<lparr>code := code this @ buffer this\<rparr>
                      in this'\<lparr>extractedFiles := extractedFiles this' @ [current_file E this']\<rparr>)
                   else this)
      in (pendingFiles @ extractedFiles this1, reset this1))"

text \<open>The chunks of one turn, fed in order.\<close>

definition feed :: "Env \<Rightarrow> CodeExtractor \<Rightarrow> string list \<Rightarrow> CodeExtractor" where
  "feed E this chunks = foldl (process E) this chunks"

text \<open>What one turn's extractor adds to \<^verbatim>\<open>pendingFiles\<close>: the chunks, then \<^verbatim>\<open>flush\<close>.\<close>

definition extract_turn :: "Env \<Rightarrow> string \<Rightarrow> string list \<Rightarrow> PendingFile list" where
  "extract_turn E d chunks = fst (flush E [] (feed E (new_CodeExtractor d) chunks))"

text \<open>The module's variables that a turn reads and writes.\<close>

record Session =
  currentDir :: string
  agent :: CodingAgent
  isFirstMessage :: bool
  conversationCount :: nat
  pendingFiles :: "PendingFile list"



text \<open>
  The error branch of \<^verbatim>\<open>prompt\<close>: the text passed to \<^verbatim>\<open>UI.error\<close>. Every thrown value
  of the model is an instance of \<^verbatim>\<open>Error\<close>.
\<close>

definition prompt_error :: "js_error \<Rightarrow> string" where
  "prompt_error err =
     (if name err = ''AbortError'' \<or> includes_str (message err) ''timeout''
      then ''Request timed out. Try /retry''
      else message err)"

section \<open>The transport client: \<^verbatim>\<open>core/api.ts\<close>\<close>

text \<open>
  The values \<^verbatim>\<open>JSON.parse\<close> returns, and \<^verbatim>\<open>undefined\<close> for what a property access
  may give. An object is the list of its keys and values, read with \<^const>\<open>map_of\<close>.
\<close>

datatype js_value =
    JUndefined
  | JNull
  | JBool bool
  | JNumber rat
  | JString string
  | JArray "js_value list"
  | JObject "(string \<times> js_value) list"

text \<open>
  What belongs to the runtime: \<^verbatim>\<open>JSON.parse\<close> (\<open>None\<close> when it throws its
  \<^verbatim>\<open>SyntaxError\<close>); \<^verbatim>\<open>JSON.stringify\<close>; the conversion of a value that is not a string
  to a string, which throws a \<^verbatim>\<open>TypeError\<close> for an object whose \<^verbatim>\<open>toString\<close> and
  \<^verbatim>\<open>valueOf\<close> give no primitive (as the parsed \<^verbatim>\<open>{"toString":null}\<close>), told by
  \<open>ToString_throws\<close>; the messages of that \<^verbatim>\<open>TypeError\<close>, of the \<^verbatim>\<open>TypeError\<close> of a
  property read on \<^verbatim>\<open>null\<close>, and of the exception of an aborted request.
\<close>

record Runtime =
  JSON_parse :: "string \<Rightarrow> js_value option"
  JSON_stringify :: "js_value \<Rightarrow> string"
  ToString :: "js_value \<Rightarrow> string"
  ToString_throws :: "js_value \<Rightarrow> bool"
  null_read_message :: string
  no_primitive_message :: string
  abort_message :: string

definition truthy :: "js_value \<Rightarrow> bool" where
  "truthy v =
     (case v of
        JUndefined \<Rightarrow> False
      | JNull \<Rightarrow> False
      | JBool b \<Rightarrow> b
      | JNumber n \<Rightarrow> n \<noteq> 0
      | JString s \<Rightarrow> s \<noteq> []
      | JArray xs \<Rightarrow> True
      | JObject kvs \<Rightarrow> True)"

text \<open>
  \<^verbatim>\<open>v.key\<close> for the keys this code reads (\<^verbatim>\<open>error\<close>, \<^verbatim>\<open>message\<close>, \<^verbatim>\<open>choices\<close>,
  \<^verbatim>\<open>delta\<close>, \<^verbatim>\<open>content\<close>), none of which a string, a number, a boolean or an array has:
  \<open>None\<close> is the \<^verbatim>\<open>TypeError\<close> of a read on \<^verbatim>\<open>null\<close> or \<^verbatim>\<open>undefined\<close>.
\<close>

definition member :: "js_value \<Rightarrow> string \<Rightarrow> js_value option" where
  "member v key =
     (case v of
        JUndefined \<Rightarrow> None
      | JNull \<Rightarrow> None
      | JObject kvs \<Rightarrow> (case map_of kvs key of Some x \<Rightarrow> Some x | None \<Rightarrow> Some JUndefined)
      | _ \<Rightarrow> Some JUndefined)"

text \<open>\<^verbatim>\<open>v?.key\<close>.\<close>

definition opt_member :: "js_value \<Rightarrow> string \<Rightarrow> js_value" where
  "opt_member v key = (case member v key of Some x \<Rightarrow> x | None \<Rightarrow> JUndefined)"

text \<open>\<^verbatim>\<open>v?.[0]\<close>: the first element of an array, the first code unit of a string, the key \<^verbatim>\<open>0\<close> of an object.\<close>

definition opt_index0 :: "js_value \<Rightarrow> js_value" where
  "opt_index0 v =
     (case v of
        JArray xs \<Rightarrow> (case xs of [] \<Rightarrow> JUndefined | x # _ \<Rightarrow> x)
      | JString s \<Rightarrow> (case s of [] \<Rightarrow> JUndefined | c # _ \<Rightarrow> JString [c])
      | JObject kvs \<Rightarrow> (case map_of kvs ''0'' of Some x \<Rightarrow> x | None \<Rightarrow> JUndefined)
      | _ \<Rightarrow> JUndefined)"

text \<open>\<^verbatim>\<open>parsed.choices?.[0]?.delta?.content\<close>, for a \<open>parsed\<close> that is not \<^verbatim>\<open>null\<close>.\<close>

definition delta_content :: "js_value \<Rightarrow> js_value" where
  "delta_content parsed =
     opt_member (opt_member (opt_index0 (opt_member parsed ''choices'')) ''delta'') ''content''"

text \<open>The argument of \<^verbatim>\<open>new Error\<close> is converted to a string.\<close>

definition to_string :: "Runtime \<Rightarrow> js_value \<Rightarrow> string" where
  "to_string R v = (case v of JString s \<Rightarrow> s | _ \<Rightarrow> ToString R v)"

text \<open>A string converts to itself; for another value the runtime tells whether converting throws.\<close>

definition conversion_throws :: "Runtime \<Rightarrow> js_value \<Rightarrow> bool" where
  "conversion_throws R v = (case v of JString s \<Rightarrow> False | _ \<Rightarrow> ToString_throws R v)"

text \<open>
  What \<^verbatim>\<open>throw new Error(error.message || JSON.stringify(error))\<close> throws for a truthy
  \<open>error\<close>: the new \<^verbatim>\<open>Error\<close>, or the \<^verbatim>\<open>TypeError\<close> of converting a truthy
  \<^verbatim>\<open>error.message\<close> that has no primitive value. \<^verbatim>\<open>JSON.stringify\<close> gives a string for
  every truthy parsed value.
\<close>

definition error_of :: "Runtime \<Rightarrow> js_value \<Rightarrow> js_error" where
  "error_of R err =
     (let m = opt_member err ''message''
      in if truthy m then
           (if conversion_throws R m
            then \<lparr>name = ''TypeError'', message = no_primitive_message R\<rparr>
            else Error (to_string R m))
         else Error (JSON_stringify R err))"

text \<open>
  What the body of the \<^verbatim>\<open>for\<close> loop does with one line: nothing, a \<^verbatim>\<open>yield\<close>, the
  \<^verbatim>\<open>return\<close> at \<^verbatim>\<open>[DONE]\<close>, or a \<^verbatim>\<open>throw\<close> that leaves the generator.
\<close>

datatype line_result = Skip | Yield js_value | Return | Throw js_error

text \<open>
  The \<^verbatim>\<open>try\<close> block of both branches: a \<^verbatim>\<open>SyntaxError\<close> is caught and dropped, every other
  error is thrown again. The second branch does not read the content.
\<close>

definition parse_payload :: "Runtime \<Rightarrow> bool \<Rightarrow> string \<Rightarrow> line_result" where
  "parse_payload R with_content data =
     (case JSON_parse R data of
        None \<Rightarrow> Skip
      | Some parsed \<Rightarrow>
          (case member parsed ''error'' of
             None \<Rightarrow> Throw \<lparr>name = ''TypeError'', message = null_read_message R\<rparr>
           | Some err \<Rightarrow>
               (if truthy err then Throw (error_of R err)
                else if with_content \<and> truthy (delta_content parsed) then Yield (delta_content parsed)
                else Skip)))"

definition handle_line :: "Runtime \<Rightarrow> string \<Rightarrow> line_result" where
  "handle_line R line =
     (let trimmed = trim line
      in if trimmed = [] then Skip
         else if startsWith trimmed ''data: '' then
           (let data = drop 6 trimmed
            in if data = ''[DONE]'' then Return else parse_payload R True data)
         else if startsWith trimmed ''{'' then parse_payload R False trimmed
         else Skip)"

text \<open>
  The \<^verbatim>\<open>for\<close> loop over the complete lines of one read: the values yielded, and how the
  loop was left.
\<close>

datatype loop_exit = Continue | Returned | Threw js_error

fun run_lines :: "Runtime \<Rightarrow> string list \<Rightarrow> js_value list \<times> loop_exit" where
  "run_lines R [] = ([], Continue)"
| "run_lines R (l # ls) =
     (case handle_line R l of
        Skip \<Rightarrow> run_lines R ls
      | Yield v \<Rightarrow> (let (ds, x) = run_lines R ls in (v # ds, x))
      | Return \<Rightarrow> ([], Returned)
      | Throw e \<Rightarrow> ([], Threw e))"

text \<open>
  The rest of the buffer once the body has ended: one last \<^verbatim>\<open>data:\<close> line without its
  newline. Its \<^verbatim>\<open>catch\<close> drops every error, and no error envelope is looked for.
\<close>

definition trailing :: "Runtime \<Rightarrow> string \<Rightarrow> js_value list" where
  "trailing R buf =
     (let trimmed = trim buf
      in if trimmed \<noteq> [] \<and> startsWith trimmed ''data: '' \<and> drop 6 trimmed \<noteq> ''[DONE]'' then
           (case JSON_parse R (drop 6 trimmed) of
              None \<Rightarrow> []
            | Some parsed \<Rightarrow>
                (if member parsed ''choices'' \<noteq> None \<and> truthy (delta_content parsed)
                 then [delta_content parsed] else []))
         else [])"

text \<open>
  How the body of the response ends: \<^verbatim>\<open>reader.read()\<close> reports \<^verbatim>\<open>done\<close>, or rejects
  (with the \<^verbatim>\<open>AbortError\<close> once the controller has aborted).
\<close>

datatype body_end = Done | ReadRejected js_error

text \<open>
  The \<^verbatim>\<open>while\<close> loop over the reads, from the buffer \<open>buf\<close> carried so far. The chunks are the
  decoded texts of the reads: the decoder runs in streaming mode and keeps an incomplete
  character for the next read. The result is the values yielded and the error thrown, if any.
\<close>

fun read_loop :: "Runtime \<Rightarrow> string \<Rightarrow> string list \<Rightarrow> body_end \<Rightarrow> js_value list \<times> js_error option" where
  "read_loop R buf [] e =
     (case e of Done \<Rightarrow> (trailing R buf, None) | ReadRejected err \<Rightarrow> ([], Some err))"
| "read_loop R buf (chunk # chunks) e =
     (let lines = split_nl (buf @ chunk);
          buf' = last lines;
          (ds, x) = run_lines R (butlast lines)
      in case x of
           Continue \<Rightarrow> (let (ds', err) = read_loop R buf' chunks e in (ds @ ds', err))
         | Returned \<Rightarrow> (ds, None)
         | Threw err \<Rightarrow> (ds, Some err))"

text \<open>What \<^verbatim>\<open>fetch\<close> gives: a rejection, a status that is not 2xx with its text, or a body.\<close>

datatype response =
    FetchRejected js_error
  | NotOk nat string
  | NoBody
  | Body "string list" body_end

definition chatStream :: "Runtime \<Rightarrow> response \<Rightarrow> js_value list \<times> js_error option" where
  "chatStream R resp =
     (case resp of
        FetchRejected err \<Rightarrow> ([], Some err)
      | NotOk status body \<Rightarrow> ([], Some (Error (''API Error ('' @ digits status @ ''): '' @ body)))
      | NoBody \<Rightarrow> ([], Some (Error ''No response body''))
      | Body chunks e \<Rightarrow> read_loop R [] chunks e)"













section \<open>Invariants and example inputs\<close>

text \<open>
  Every reference of the log was allocated before \<open>nextRef\<close>, and the log starts with a
  system message: the invariant of the agent.
\<close>

definition log_inv :: "CodingAgent \<Rightarrow> bool" where
  "log_inv a \<longleftrightarrow>
     (\<exists>r m rest. conversationHistory a = (r, m) # rest \<and> role m = System)
     \<and> (\<forall>x \<in> set (conversationHistory a). fst x < nextRef a)"


text \<open>
  An opening fence line with tag \<open>w\<close> and path \<open>p\<close>, and what makes it one: a tag of
  word characters, a path without a newline, neither empty.
\<close>

definition fence :: "string \<Rightarrow> string \<Rightarrow> string" where
  "fence w p = ''```'' @ w @ '':'' @ p @ ''\<newline>''"

definition tag_ok :: "string \<Rightarrow> bool" where
  "tag_ok w \<longleftrightarrow> w \<noteq> [] \<and> (\<forall>c \<in> set w. is_word c)"

definition path_ok :: "string \<Rightarrow> bool" where
  "path_ok p \<longleftrightarrow> p \<noteq> [] \<and> CHR ''\<newline>'' \<notin> set p"

text \<open>The text holds an opening fence line somewhere.\<close>

definition has_open_fence :: "string \<Rightarrow> bool" where
  "has_open_fence t \<longleftrightarrow> (\<exists>pre w p post. t = pre @ fence w p @ post \<and> tag_ok w \<and> path_ok p)"

text \<open>
  The artifact \<open>f\<close> comes from an opening fence line of the text \<open>t\<close>: its name is the
  trimmed path of the line, its content the trimmed text \<open>body\<close> that follows the line.
\<close>

definition from_fence :: "string \<Rightarrow> PendingFile \<Rightarrow> bool" where
  "from_fence t f \<longleftrightarrow>
     (\<exists>pre w p body post. t = pre @ fence w p @ body @ post \<and> tag_ok w \<and> path_ok p
        \<and> PendingFile.filename f = trim p \<and> PendingFile.content f = trim body)"

text \<open>
  The invariant of the extractor against the text \<open>t\<close> it has been fed: the buffer is the
  end of the text; inside a block, the body and the buffer are what followed the opening
  fence line of the current file; every artifact emitted comes from an opening fence
  line of the text.
\<close>

definition ext_inv :: "CodeExtractor \<Rightarrow> string \<Rightarrow> bool" where
  "ext_inv this t \<longleftrightarrow>
     (\<exists>pre. t = pre @ buffer this)
     \<and> (inBlock this \<longrightarrow>
          (\<exists>pre w p. t = pre @ fence w p @ code this @ buffer this \<and> tag_ok w \<and> path_ok p
             \<and> CodeExtractor.filename this = trim p))
     \<and> (\<forall>f \<in> set (extractedFiles this). from_fence t f)"

text \<open>The filename and the body of an artifact.\<close>

definition artifact :: "PendingFile \<Rightarrow> string \<times> string" where
  "artifact f = (PendingFile.filename f, PendingFile.content f)"

text \<open>An empty directory \<^verbatim>\<open>/w\<close> on a POSIX system, and a new session in it, for the examples.\<close>

definition example_env :: Env where
  "example_env =
     \<lparr>existsSync = (\<lambda>p. False), isAbsolute = (\<lambda>p. startsWith p ''/''),
      path_join = (\<lambda>d f. d @ ''/'' @ f), getFullStructure = (\<lambda>d. [])\<rparr>"




section \<open>The conversation log across a turn\<close>

lemma indexOf_obj_mem:
  "fst x \<in> fst ` set xs \<Longrightarrow> \<exists>idx. indexOf_obj xs x = Some idx \<and> idx < length xs"
  by (induction xs) auto

lemma indexOf_obj_fresh:
  "fst x \<notin> fst ` set xs \<Longrightarrow> indexOf_obj (xs @ [x]) x = Some (length xs)"
  by (induction xs) auto

lemma length_splice1: "idx < length xs \<Longrightarrow> length (splice1 idx xs) = length xs - 1"
  by (simp add: splice1_def)

lemma splice1_last: "splice1 (length xs) (xs @ [x]) = xs"
  by (simp add: splice1_def)

lemma log_inv_constructor: "log_inv constructor"
  by (simp add: log_inv_def constructor_def)

text \<open>With fresh references a failed turn gives back the very log it started from.\<close>

lemma sendStream_failure_log:
  assumes "\<forall>x \<in> set (conversationHistory a). fst x < nextRef a" and "snd s \<noteq> None"
  shows "conversationHistory (fst (sendStream a userMessage s)) = conversationHistory a"
proof -
  let ?u = "(nextRef a, \<lparr>role = User, content = userMessage\<rparr>)"
  have "fst ?u \<notin> fst ` set (conversationHistory a)"
    using assms(1) by auto
  then have "indexOf_obj (conversationHistory a @ [?u]) ?u = Some (length (conversationHistory a))"
    by (rule indexOf_obj_fresh)
  then show ?thesis
    using assms(2) by (auto simp: sendStream_def new_message_def push_def Let_def splice1_last)
qed

lemma nextRef_sendStream: "nextRef a \<le> nextRef (fst (sendStream a userMessage s))"
  by (auto simp: sendStream_def new_message_def push_def Let_def split: option.splits)

lemma log_inv_step: "log_inv a \<Longrightarrow> log_inv (apply_op a op)"
proof (cases op)
  case (Send userMessage r)
  assume "log_inv a"
  then show ?thesis
    using Send
    by (cases r)
       (auto simp: log_inv_def send_def new_message_def push_def Let_def butlast_append less_Suc_eq)
next
  case (SendStream userMessage s)
  assume inv: "log_inv a"
  show ?thesis
  proof (cases "snd s = None")
    case True
    then show ?thesis
      using inv SendStream
      by (auto simp: log_inv_def sendStream_def new_message_def push_def Let_def less_Suc_eq)
  next
    case False
    then have "conversationHistory (fst (sendStream a userMessage s)) = conversationHistory a"
      using inv sendStream_failure_log by (simp add: log_inv_def)
    then show ?thesis
      using inv SendStream nextRef_sendStream [of a userMessage s] by (fastforce simp: log_inv_def)
  qed
next
  case ClearHistory
  assume "log_inv a"
  then show ?thesis
    using ClearHistory by (auto simp: log_inv_def clearHistory_def new_message_def)
next
  case (UpdateSystemPrompt addition)
  assume "log_inv a"
  then show ?thesis
    using UpdateSystemPrompt by (fastforce simp: log_inv_def updateSystemPrompt_def)
qed

lemma log_inv_foldl: "log_inv a \<Longrightarrow> log_inv (foldl apply_op a ops)"
  by (induction ops arbitrary: a) (auto simp: log_inv_step)

lemma log_inv_run_ops: "log_inv (run_ops ops)"
  by (simp add: run_ops_def log_inv_foldl log_inv_constructor)

text \<open>Apart from \<open>clearHistory\<close>, which builds a new log, the object at index 0 stays.\<close>

lemma head_ref_step:
  assumes "log_inv a" and "op \<noteq> ClearHistory"
  shows "fst (hd (conversationHistory (apply_op a op))) = fst (hd (conversationHistory a))"
proof (cases op)
  case (Send userMessage r)
  then show ?thesis
    using assms(1)
    by (cases r) (auto simp: log_inv_def send_def new_message_def push_def Let_def butlast_append)
next
  case (SendStream userMessage s)
  show ?thesis
  proof (cases "snd s = None")
    case True
    then show ?thesis
      using assms(1) SendStream
      by (auto simp: log_inv_def sendStream_def new_message_def push_def Let_def)
  next
    case False
    then show ?thesis
      using assms(1) SendStream sendStream_failure_log [of a s userMessage]
      by (simp add: log_inv_def)
  qed
next
  case ClearHistory
  then show ?thesis using assms(2) by simp
next
  case (UpdateSystemPrompt addition)
  then show ?thesis
    using assms(1) by (auto simp: log_inv_def updateSystemPrompt_def)
qed

text \<open>
  Claim C1, as amended. On an agent reached by any sequence of operations, a turn of
  \<open>sendStream\<close> whose stream fails (transport error, timeout, cancellation) removes the
  user message it appended and nothing else: the log after the turn is the log before
  the turn. A turn that completes with an empty reply commits no assistant message and
  keeps the user message: the log is the old one followed by that message.
\<close>

theorem sendStream_rollback:
  "(snd s \<noteq> None \<longrightarrow>
      conversationHistory (fst (sendStream (run_ops ops) userMessage s))
        = conversationHistory (run_ops ops))
   \<and> (snd s = None \<and> concat (fst s) = [] \<longrightarrow>
      conversationHistory (fst (sendStream (run_ops ops) userMessage s))
        = conversationHistory (run_ops ops)
            @ [(nextRef (run_ops ops), \<lparr>role = User, content = userMessage\<rparr>)])"
proof (intro conjI impI)
  assume "snd s \<noteq> None"
  moreover have "\<forall>x \<in> set (conversationHistory (run_ops ops)). fst x < nextRef (run_ops ops)"
    using log_inv_run_ops [of ops] by (simp add: log_inv_def)
  ultimately show "conversationHistory (fst (sendStream (run_ops ops) userMessage s))
      = conversationHistory (run_ops ops)"
    by (rule sendStream_failure_log [rotated])
next
  assume "snd s = None \<and> concat (fst s) = []"
  then show "conversationHistory (fst (sendStream (run_ops ops) userMessage s))
      = conversationHistory (run_ops ops)
          @ [(nextRef (run_ops ops), \<lparr>role = User, content = userMessage\<rparr>)]"
    by (simp add: sendStream_def new_message_def push_def Let_def)
qed

theorem sendStream_rollback_witness:
  "snd ([''par''], Some (AbortError ''aborted'')) \<noteq> None
   \<and> conversationHistory
        (fst (sendStream (run_ops [SendStream ''a'' ([''x''], None)]) ''hi''
           ([''par''], Some (AbortError ''aborted''))))
       = [(0, \<lparr>role = System, content = SYSTEM_PROMPT\<rparr>), (1, \<lparr>role = User, content = ''a''\<rparr>),
          (2, \<lparr>role = Assistant, content = ''x''\<rparr>)]
   \<and> snd ([[]], None :: js_error option) = None \<and> concat (fst ([[]], None :: js_error option)) = []
   \<and> conversationHistory (fst (sendStream (run_ops [SendStream ''a'' ([''x''], None)]) ''hi'' ([[]], None)))
       = [(0, \<lparr>role = System, content = SYSTEM_PROMPT\<rparr>), (1, \<lparr>role = User, content = ''a''\<rparr>),
          (2, \<lparr>role = Assistant, content = ''x''\<rparr>), (3, \<lparr>role = User, content = ''hi''\<rparr>)]"
proof -
  have st: "run_ops [SendStream ''a'' ([''x''], None)]
      = \<lparr>conversationHistory =
           [(0, \<lparr>role = System, content = SYSTEM_PROMPT\<rparr>), (1, \<lparr>role = User, content = ''a''\<rparr>),
            (2, \<lparr>role = Assistant, content = ''x''\<rparr>)],
         pendingUserMessage = None, nextRef = 3\<rparr>"
    by (simp add: run_ops_def constructor_def sendStream_def new_message_def push_def Let_def)
  show ?thesis
    using sendStream_rollback [where s = "([''par''], Some (AbortError ''aborted''))"
        and ops = "[SendStream ''a'' ([''x''], None)]" and userMessage = "''hi''"]
      sendStream_rollback [where s = "([[]], None)" and ops = "[SendStream ''a'' ([''x''], None)]"
        and userMessage = "''hi''"]
    by (simp add: st)
qed

text \<open>
  Claim C1 as it is written fails for the turn that completes with an empty reply: after
  the turn the log is one entry longer than before.
\<close>

theorem sendStream_empty_reply_counterexample:
  "length (conversationHistory (fst (sendStream constructor ''hi'' ([], None))))
     \<noteq> length (conversationHistory constructor)"
  by (simp add: sendStream_def new_message_def push_def constructor_def)

text \<open>
  Claim C6. A turn of \<open>sendStream\<close> whose stream completes with a reply that is not empty
  grows the log by two entries: the user message, then the assistant message holding the
  concatenation of the chunks; and the chunks yielded on are those of the stream.
\<close>

theorem sendStream_commit:
  "snd s = None \<Longrightarrow> concat (fst s) \<noteq> [] \<Longrightarrow>
   conversationHistory (fst (sendStream a userMessage s))
     = conversationHistory a @
         [(nextRef a, \<lparr>role = User, content = userMessage\<rparr>),
          (Suc (nextRef a), \<lparr>role = Assistant, content = concat (fst s)\<rparr>)]
   \<and> snd (sendStream a userMessage s) = s"
  by (simp add: sendStream_def new_message_def push_def Let_def)

theorem sendStream_commit_witness:
  "snd ([''Hel'', ''lo''], None :: js_error option) = None
   \<and> concat (fst ([''Hel'', ''lo''], None :: js_error option)) \<noteq> []
   \<and> conversationHistory (fst (sendStream constructor ''hi'' ([''Hel'', ''lo''], None)))
       = conversationHistory constructor @
           [(1, \<lparr>role = User, content = ''hi''\<rparr>), (2, \<lparr>role = Assistant, content = ''Hello''\<rparr>)]"
  using sendStream_commit [where s = "([''Hel'', ''lo''], None)" and a = constructor
      and userMessage = "''hi''"]
  by (simp add: constructor_def)

text \<open>
  Claim C8. After any sequence of operations on a new agent (\<open>send\<close> and \<open>sendStream\<close>
  with any outcome of the client, \<open>clearHistory\<close>, \<open>updateSystemPrompt\<close>) the log has an
  element 0 and its role is \<open>system\<close>. No operation removes it: after every operation
  but \<open>clearHistory\<close>, which starts a new log with a new system message, element 0 is the
  same object as before.
\<close>

theorem system_message_first:
  "conversationHistory (run_ops ops) \<noteq> []
   \<and> role (snd (hd (conversationHistory (run_ops ops)))) = System
   \<and> (op \<noteq> ClearHistory \<longrightarrow>
        fst (hd (conversationHistory (apply_op (run_ops ops) op)))
          = fst (hd (conversationHistory (run_ops ops))))"
  using log_inv_run_ops [of ops] head_ref_step [of "run_ops ops" op]
  by (auto simp: log_inv_def)

theorem system_message_first_witness:
  "conversationHistory (run_ops [SendStream ''a'' ([''x''], None), UpdateSystemPrompt ''more'']) \<noteq> []
   \<and> role (snd (hd (conversationHistory
        (run_ops [SendStream ''a'' ([''x''], None), UpdateSystemPrompt ''more''])))) = System
   \<and> SendStream ''b'' ([], Some (Error ''API Error (500): no'')) \<noteq> ClearHistory
   \<and> fst (hd (conversationHistory
        (apply_op (run_ops [SendStream ''a'' ([''x''], None), UpdateSystemPrompt ''more''])
           (SendStream ''b'' ([], Some (Error ''API Error (500): no'')))))) = 0"
  using system_message_first [where ops = "[SendStream ''a'' ([''x''], None), UpdateSystemPrompt ''more'']"
      and op = "SendStream ''b'' ([], Some (Error ''API Error (500): no''))"]
  by (simp add: run_ops_def constructor_def sendStream_def new_message_def push_def
      updateSystemPrompt_def Let_def)

section \<open>Line buffering in the transport client\<close>

lemma split_nl_nonempty [simp]: "split_nl s \<noteq> []"
  by (induction s) (auto split: list.splits)

lemma split_nl_no_nl: "CHR ''\<newline>'' \<notin> set s \<Longrightarrow> split_nl s = [s]"
  by (induction s) auto


lemma last_split_nl_no_nl: "CHR ''\<newline>'' \<notin> set (last (split_nl s))"
  by (induction s) (auto split: list.splits)

lemma split_nl_single: "split_nl x = [h] \<Longrightarrow> x = h"
  by (induction x arbitrary: h) (auto split: list.splits if_splits)

lemma split_nl_append:
  "butlast (split_nl (x @ y)) = butlast (split_nl x) @ butlast (split_nl (last (split_nl x) @ y))
   \<and> last (split_nl (x @ y)) = last (split_nl (last (split_nl x) @ y))"
proof (induction x)
  case Nil
  show ?case by simp
next
  case (Cons c x)
  show ?case
  proof (cases "c = CHR ''\<newline>''")
    case True
    with Cons show ?thesis by simp
  next
    case False
    obtain h t where ht: "split_nl x = h # t" by (cases "split_nl x") auto
    obtain h2 t2 where ht2: "split_nl (x @ y) = h2 # t2" by (cases "split_nl (x @ y)") auto
    show ?thesis
    proof (cases "t = []")
      case True
      with ht have "x = h" by (simp add: split_nl_single)
      with True False ht show ?thesis by simp
    next
      case tne: False
      with Cons ht ht2 have "h2 = h" "t2 \<noteq> []" by (auto split: if_splits)
      with Cons False ht ht2 tne show ?thesis by (auto split: if_splits)
    qed
  qed
qed

lemma run_lines_append:
  "run_lines R (xs @ ys) =
     (case run_lines R xs of
        (ds, Continue) \<Rightarrow> (let (ds', x) = run_lines R ys in (ds @ ds', x))
      | r \<Rightarrow> r)"
  by (induction xs) (auto split: line_result.splits prod.splits loop_exit.splits)

lemma read_loop_concat:
  "CHR ''\<newline>'' \<notin> set b \<Longrightarrow> read_loop R b chunks e = read_loop R b [concat chunks] e"
proof (induction chunks arbitrary: b)
  case Nil
  then show ?case by (cases e) (simp_all add: split_nl_no_nl)
next
  case (Cons c cs)
  let ?b' = "last (split_nl (b @ c))"
  have ih: "read_loop R ?b' cs e = read_loop R ?b' [concat cs] e"
    by (rule Cons.IH) (rule last_split_nl_no_nl)
  have sp: "butlast (split_nl (b @ c @ concat cs))
              = butlast (split_nl (b @ c)) @ butlast (split_nl (?b' @ concat cs))"
       "last (split_nl (b @ c @ concat cs)) = last (split_nl (?b' @ concat cs))"
    using split_nl_append [of "b @ c" "concat cs"] by simp_all
  obtain ds1 x1 where r1: "run_lines R (butlast (split_nl (b @ c))) = (ds1, x1)"
    by (cases "run_lines R (butlast (split_nl (b @ c)))")
  obtain ds2 x2 where r2: "run_lines R (butlast (split_nl (?b' @ concat cs))) = (ds2, x2)"
    by (cases "run_lines R (butlast (split_nl (?b' @ concat cs)))")
  have lhs: "read_loop R b (c # cs) e =
      (case x1 of Continue \<Rightarrow> (ds1 @ fst (read_loop R ?b' [concat cs] e), snd (read_loop R ?b' [concat cs] e))
       | Returned \<Rightarrow> (ds1, None) | Threw err \<Rightarrow> (ds1, Some err))"
    using r1 ih by (simp add: Let_def split: prod.splits loop_exit.splits)
  have mid: "read_loop R ?b' [concat cs] e =
      (case x2 of Continue \<Rightarrow> (ds2 @ fst (read_loop R (last (split_nl (?b' @ concat cs))) [] e),
                               snd (read_loop R (last (split_nl (?b' @ concat cs))) [] e))
       | Returned \<Rightarrow> (ds2, None) | Threw err \<Rightarrow> (ds2, Some err))"
    using r2 by (simp add: Let_def split: prod.splits loop_exit.splits)
  have rhs: "read_loop R b [concat (c # cs)] e =
      (case x1 of
         Continue \<Rightarrow>
           (case x2 of Continue \<Rightarrow> (ds1 @ ds2 @ fst (read_loop R (last (split_nl (?b' @ concat cs))) [] e),
                                    snd (read_loop R (last (split_nl (?b' @ concat cs))) [] e))
            | Returned \<Rightarrow> (ds1 @ ds2, None) | Threw err \<Rightarrow> (ds1 @ ds2, Some err))
       | Returned \<Rightarrow> (ds1, None) | Threw err \<Rightarrow> (ds1, Some err))"
    using r1 r2 sp
    by (simp add: Let_def run_lines_append split: prod.splits loop_exit.splits
        cong: body_end.case_cong)
  show ?case
    unfolding lhs rhs mid by (simp split: loop_exit.splits)
qed

text \<open>
  Claim C5. However the payload of the response body is cut into reads, \<open>chatStream\<close>
  yields the same values and ends the same way as when the payload arrives in one read;
  so the concatenation of the text of the values is the same too.
\<close>

theorem chatStream_split_invariant:
  "chatStream R (Body chunks e) = chatStream R (Body [concat chunks] e)
   \<and> concat (map (to_string R) (fst (chatStream R (Body chunks e))))
       = concat (map (to_string R) (fst (chatStream R (Body [concat chunks] e))))"
  using read_loop_concat [of "[]" R chunks e] by (simp add: chatStream_def)

section \<open>Parse noise and error envelopes\<close>












section \<open>Aborted requests and the retry suggestion\<close>











lemma prompt_error_not_aborted:
  "name err \<noteq> ''AbortError'' \<Longrightarrow>
   prompt_error err
     = (if includes_str (message err) ''timeout'' then ''Request timed out. Try /retry''
        else message err)"
  by (simp add: prompt_error_def)










section \<open>The opening pattern\<close>

lemma indexOf_Some: "indexOf s p = Some i \<Longrightarrow> s = take i s @ p @ drop (i + length p) s"
proof (induction s arbitrary: i)
  case Nil
  then show ?case by (simp split: if_splits)
next
  case (Cons c s)
  show ?case
  proof (cases "startsWith (c # s) p")
    case True
    from True have "take (length p) (c # s) = p"
      by (simp add: startsWith_def)
    then have "c # s = p @ drop (length p) (c # s)"
      by (metis append_take_drop_id)
    moreover from True Cons.prems have "i = 0" by simp
    ultimately show ?thesis by simp
  next
    case False
    with Cons.prems obtain j where j: "indexOf s p = Some j" "i = Suc j" by auto
    from Cons.IH [OF j(1)] j(2) show ?thesis by simp
  qed
qed

lemma indexOf_Nil: "indexOf s [] = Some 0"
  by (cases s) (simp_all add: startsWith_def)

lemma indexOf_occurs: "indexOf (pre @ p @ post) p \<noteq> None"
proof (induction pre)
  case Nil
  show ?case by (cases p) (simp_all add: startsWith_def indexOf_Nil)
next
  case (Cons c pre)
  then show ?case by simp
qed

lemma match_here_Some:
  assumes "match_here s = Some (m0, m1, m2)"
  shows "m0 = fence m1 m2 \<and> tag_ok m1 \<and> path_ok m2 \<and> (\<exists>post. s = m0 @ post)"
proof -
  define r where "r = drop 3 s"
  define r1 where "r1 = dropWhile is_word r"
  define r2 where "r2 = drop 1 r1"
  define r3 where "r3 = dropWhile not_nl r2"
  from assms have a: "startsWith s ''```''" "m1 \<noteq> []" "startsWith r1 '':''"
      "m2 \<noteq> []" "r3 \<noteq> []" "m1 = takeWhile is_word r" "m2 = takeWhile not_nl r2"
      "m0 = ''```'' @ m1 @ '':'' @ m2 @ ''\<newline>''"
    by (auto simp: match_here_def Let_def r_def r1_def r2_def r3_def split: if_splits)
  from a(1) have "take 3 s = ''```''"
    by (simp add: startsWith_def numeral_3_eq_3)
  then have s: "s = ''```'' @ r"
    unfolding r_def by (metis append_take_drop_id)
  have r: "r = m1 @ r1"
    by (simp add: a(6) r1_def)
  have r1: "r1 = '':'' @ r2"
    using a(3) by (cases r1) (auto simp: startsWith_def r2_def)
  have r2: "r2 = m2 @ r3"
    by (simp add: a(7) r3_def)
  have "\<not> not_nl (hd r3)"
    using a(5) unfolding r3_def by (rule hd_dropWhile)
  then obtain r4 where r3: "r3 = CHR ''\<newline>'' # r4"
    using a(5) by (cases r3) (auto simp: not_nl_def)
  have "s = m0 @ r4"
    by (simp add: s r r1 r2 r3 a(8))
  moreover have "tag_ok m1"
    using a(2) by (auto simp: a(6) tag_ok_def dest: set_takeWhileD)
  moreover have "path_ok m2"
    using a(4) by (auto simp: a(7) path_ok_def not_nl_def dest: set_takeWhileD)
  ultimately show ?thesis
    using a(8) by (auto simp: fence_def)
qed

lemma regex_match_Some:
  "regex_match s = Some (m0, m1, m2) \<Longrightarrow>
   m0 = fence m1 m2 \<and> tag_ok m1 \<and> path_ok m2 \<and> (\<exists>pre post. s = pre @ m0 @ post)"
proof (induction s)
  case Nil
  then show ?case by (simp add: match_here_def startsWith_def)
next
  case (Cons c s)
  show ?case
  proof (cases "match_here (c # s)")
    case None
    with Cons.prems have "regex_match s = Some (m0, m1, m2)" by simp
    from Cons.IH [OF this] obtain pre post
      where ok: "m0 = fence m1 m2" "tag_ok m1" "path_ok m2" and s: "s = pre @ m0 @ post"
      by blast
    have "\<exists>pre post. c # s = pre @ m0 @ post"
    proof (intro exI)
      show "c # s = (c # pre) @ m0 @ post" using s by simp
    qed
    with ok show ?thesis by simp
  next
    case (Some m)
    with Cons.prems have "match_here (c # s) = Some (m0, m1, m2)" by simp
    from match_here_Some [OF this] obtain post
      where ok: "m0 = fence m1 m2" "tag_ok m1" "path_ok m2" and s: "c # s = m0 @ post"
      by blast
    have "\<exists>pre post. c # s = pre @ m0 @ post"
    proof (intro exI)
      show "c # s = [] @ m0 @ post" using s by simp
    qed
    with ok show ?thesis by simp
  qed
qed

lemma not_word_colon: "\<not> is_word CHR '':''"
  by (simp add: is_word_def)

lemma match_here_fence:
  assumes "tag_ok w" "path_ok p"
  shows "match_here (fence w p @ post) = Some (fence w p, w, p)"
proof -
  have w: "takeWhile is_word (w @ CHR '':'' # p @ CHR ''\<newline>'' # post) = w"
    "dropWhile is_word (w @ CHR '':'' # p @ CHR ''\<newline>'' # post) = CHR '':'' # p @ CHR ''\<newline>'' # post"
    using assms(1) not_word_colon by (simp_all add: tag_ok_def takeWhile_tail dropWhile_append3)
  have p: "takeWhile not_nl (p @ CHR ''\<newline>'' # post) = p"
    "dropWhile not_nl (p @ CHR ''\<newline>'' # post) = CHR ''\<newline>'' # post"
    using assms(2) by (auto simp: path_ok_def not_nl_def takeWhile_tail dropWhile_append3)
  show ?thesis
    using assms w p
    by (simp add: match_here_def fence_def startsWith_def Let_def tag_ok_def path_ok_def not_nl_def
        not_word_colon)
qed

lemma regex_match_suffix: "match_here x \<noteq> None \<Longrightarrow> regex_match (pre @ x) \<noteq> None"
proof (induction pre)
  case Nil
  then show ?case by (cases x) auto
next
  case (Cons c pre)
  then show ?case by (cases "match_here (c # pre @ x)") auto
qed

lemma has_open_fence_iff: "has_open_fence t \<longleftrightarrow> regex_match t \<noteq> None"
proof
  assume "has_open_fence t"
  then obtain pre w p post where "t = pre @ fence w p @ post" "tag_ok w" "path_ok p"
    by (auto simp: has_open_fence_def)
  then show "regex_match t \<noteq> None"
    using regex_match_suffix [of "fence w p @ post" pre] match_here_fence [of w p post] by simp
next
  assume "regex_match t \<noteq> None"
  then obtain m0 m1 m2 where "regex_match t = Some (m0, m1, m2)" by auto
  from regex_match_Some [OF this] obtain pre post
    where "tag_ok m1" "path_ok m2" "t = pre @ fence m1 m2 @ post"
    by blast
  then show "has_open_fence t"
    unfolding has_open_fence_def by blast
qed

section \<open>The invariant of the extractor\<close>

lemma has_open_fence_append: "has_open_fence t \<Longrightarrow> has_open_fence (t @ u)"
proof -
  assume "has_open_fence t"
  then obtain pre w p post where "t = pre @ fence w p @ post" "tag_ok w" "path_ok p"
    unfolding has_open_fence_def by blast
  then have "t @ u = pre @ fence w p @ (post @ u)" "tag_ok w" "path_ok p"
    by simp_all
  then show ?thesis unfolding has_open_fence_def by blast
qed

lemma from_fence_append: "from_fence t f \<Longrightarrow> from_fence (t @ u) f"
proof -
  assume "from_fence t f"
  then obtain pre w p body post where "t = pre @ fence w p @ body @ post" "tag_ok w" "path_ok p"
    "PendingFile.filename f = trim p" "PendingFile.content f = trim body"
    unfolding from_fence_def by blast
  then have "t @ u = pre @ fence w p @ body @ (post @ u)" "tag_ok w" "path_ok p"
    "PendingFile.filename f = trim p" "PendingFile.content f = trim body"
    by simp_all
  then show ?thesis unfolding from_fence_def by blast
qed

lemma from_fence_has_open_fence: "from_fence t f \<Longrightarrow> has_open_fence t"
  unfolding from_fence_def has_open_fence_def by blast

lemma ext_inv_append:
  assumes "ext_inv this t"
  shows "ext_inv (this\<lparr>buffer := buffer this @ chunk\<rparr>) (t @ chunk)"
proof -
  from assms obtain pre where "t = pre @ buffer this"
    unfolding ext_inv_def by blast
  then have c1: "\<exists>pre'. t @ chunk = pre' @ buffer this @ chunk"
    by simp
  have c2: "\<exists>pre w p. t @ chunk = pre @ fence w p @ code this @ buffer this @ chunk
              \<and> tag_ok w \<and> path_ok p \<and> CodeExtractor.filename this = trim p"
    if "inBlock this"
  proof -
    from assms that obtain pre w p where "t = pre @ fence w p @ code this @ buffer this"
      "tag_ok w" "path_ok p" "CodeExtractor.filename this = trim p"
      unfolding ext_inv_def by blast
    then have "t @ chunk = pre @ fence w p @ code this @ buffer this @ chunk"
      by simp
    with \<open>tag_ok w\<close> \<open>path_ok p\<close> \<open>CodeExtractor.filename this = trim p\<close> show ?thesis
      by blast
  qed
  have c3: "\<forall>f \<in> set (extractedFiles this). from_fence (t @ chunk) f"
    using assms unfolding ext_inv_def by (blast intro: from_fence_append)
  show ?thesis
    unfolding ext_inv_def using c1 c2 c3 by simp
qed

text \<open>The scanning branch, on the buffer that already holds the chunk.\<close>

lemma ext_inv_scanning:
  assumes "ext_inv this t" and "\<not> inBlock this" and "buffer this = b"
  shows "ext_inv (process E (this\<lparr>buffer := []\<rparr>) b) t"
proof (cases "regex_match b")
  case None
  have p: "process E (this\<lparr>buffer := []\<rparr>) b
        = (if length b > 200 then this\<lparr>buffer := slice_last 200 b\<rparr> else this\<lparr>buffer := b\<rparr>)"
    using assms(2) None by (simp add: process.simps)
  from assms(1,3) obtain pre where pre: "t = pre @ b" unfolding ext_inv_def by blast
  have "t = (pre @ take (length b - 200) b) @ slice_last 200 b"
    by (simp add: pre slice_last_def)
  then have "\<exists>pre. t = pre @ slice_last 200 b" by blast
  then show ?thesis
    using assms pre unfolding p ext_inv_def by auto
next
  case (Some m)
  obtain m0 m1 m2 where m: "m = (m0, m1, m2)" by (cases m)
  from regex_match_Some [of b m0 m1 m2] Some m obtain pr po
    where ok: "m0 = fence m1 m2" "tag_ok m1" "path_ok m2" and b: "b = pr @ m0 @ po"
    by blast
  from indexOf_occurs [of pr m0 po] b obtain i where i: "indexOf b m0 = Some i"
    by auto
  have p: "process E (this\<lparr>buffer := []\<rparr>) b
        = this\<lparr>inBlock := True, CodeExtractor.filename := trim m2, code := [],
               buffer := drop (i + length m0) b\<rparr>"
    using assms(2) Some m i by (simp add: process.simps)
  from assms(1,3) obtain pre where pre: "t = pre @ b" unfolding ext_inv_def by blast
  have bb: "b = take i b @ m0 @ drop (i + length m0) b"
    using i by (rule indexOf_Some)
  have t1: "t = (pre @ take i b @ m0) @ drop (i + length m0) b"
    using pre bb by (metis append.assoc)
  have t2: "t = (pre @ take i b) @ fence m1 m2 @ [] @ drop (i + length m0) b"
    using pre bb ok(1) by (metis append.assoc append_Nil)
  have c1: "\<exists>pre'. t = pre' @ drop (i + length m0) b"
    using t1 by blast
  have c2: "\<exists>pre' w p. t = pre' @ fence w p @ [] @ drop (i + length m0) b \<and> tag_ok w \<and> path_ok p
              \<and> trim m2 = trim p"
    using t2 ok(2,3) by blast
  have c3: "\<forall>f \<in> set (extractedFiles this). from_fence t f"
    using assms(1) unfolding ext_inv_def by blast
  show ?thesis
    unfolding p ext_inv_def using c1 c2 c3 by simp
qed


lemma process_buffer: "process E this chunk = process E (this\<lparr>buffer := []\<rparr>) (buffer this @ chunk)"
  by (subst process.simps, subst (2) process.simps) simp

lemma slice_split: "slice_but_last k b @ slice_last k b = b"
  by (simp add: slice_but_last_def slice_last_def)

lemma ext_inv_capturing:
  assumes inv1: "ext_inv this1 t" and "inBlock this1" and "buffer this1 = b"
  shows "ext_inv (process E (this1\<lparr>buffer := []\<rparr>) b) t"
proof -
  have this1: "this1\<lparr>buffer := b\<rparr> = this1"
    using assms(3) by simp
  from assms obtain pre w p
    where t: "t = pre @ fence w p @ code this1 @ b" and ok: "tag_ok w" "path_ok p"
      and fn: "CodeExtractor.filename this1 = trim p"
    unfolding ext_inv_def by auto
  have hf: "has_open_fence t"
    unfolding has_open_fence_def using t ok by blast
  show ?thesis
  proof (cases "indexOf b ''```''")
    case None
    have p: "process E (this1\<lparr>buffer := []\<rparr>) b =
        (if length b > 10
         then this1\<lparr>code := code this1 @ slice_but_last 10 b, buffer := slice_last 10 b\<rparr>
         else this1)"
      using assms(2,3) None this1 by (subst process.simps) simp
    have e1: "\<exists>pre'. t = pre' @ slice_last 10 b"
    proof
      show "t = (pre @ fence w p @ code this1 @ slice_but_last 10 b) @ slice_last 10 b"
        using t slice_split [of 10 b] by simp
    qed
    have e2: "\<exists>pre' w' p'. t = pre' @ fence w' p' @ (code this1 @ slice_but_last 10 b) @ slice_last 10 b
                \<and> tag_ok w' \<and> path_ok p' \<and> CodeExtractor.filename this1 = trim p'"
      using t ok fn slice_split [of 10 b] by auto
    show ?thesis
    proof (cases "length b > 10")
      case True
      then show ?thesis
        unfolding p ext_inv_def using e1 e2 inv1 by (simp add: ext_inv_def)
    next
      case False
      then show ?thesis unfolding p using inv1 by simp
    qed
  next
    case (Some k)
    define this3 where "this3 =
      this1\<lparr>extractedFiles := extractedFiles this1 @
                 [current_file E (this1\<lparr>buffer := b, code := code this1 @ take k b\<rparr>)],
             buffer := drop (k + 3) b, inBlock := False, code := [],
             CodeExtractor.filename := []\<rparr>"
    have p: "process E (this1\<lparr>buffer := []\<rparr>) b
               = (if buffer this3 \<noteq> [] then process E this3 [] else this3)"
      using assms(2,3) Some this1
      by (subst process.simps) (simp add: this3_def Let_def)
    have bb: "b = take k b @ ''```'' @ drop (k + 3) b"
      using indexOf_Some [OF Some] by (simp add: numeral_3_eq_3)
    have "\<exists>pre'. t = pre' @ drop (k + 3) b"
    proof
      show "t = (pre @ fence w p @ code this1 @ take k b @ ''```'') @ drop (k + 3) b"
        using t bb by (metis append.assoc)
    qed
    moreover have "from_fence t (current_file E (this1\<lparr>buffer := b, code := code this1 @ take k b\<rparr>))"
    proof -
      let ?f = "current_file E (this1\<lparr>buffer := b, code := code this1 @ take k b\<rparr>)"
      have tt: "t = pre @ fence w p @ (code this1 @ take k b) @ (''```'' @ drop (k + 3) b)"
        using t bb by (metis append.assoc)
      have fl: "PendingFile.filename ?f = trim p"
        "PendingFile.content ?f = trim (code this1 @ take k b)"
        using fn by (simp_all add: current_file_def Let_def)
      show ?thesis
        unfolding from_fence_def
        by (intro exI conjI) (rule tt, rule ok(1), rule ok(2), rule fl(1), rule fl(2))
    qed
    moreover have "\<forall>f \<in> set (extractedFiles this1). from_fence t f"
      using inv1 unfolding ext_inv_def by blast
    ultimately have inv3: "ext_inv this3 t"
      unfolding ext_inv_def by (simp add: this3_def)
    have nb: "\<not> inBlock this3" by (simp add: this3_def)
    show ?thesis
    proof (cases "buffer this3 = []")
      case True
      then show ?thesis unfolding p using inv3 by simp
    next
      case False
      have "process E this3 [] = process E (this3\<lparr>buffer := []\<rparr>) (buffer this3)"
        using process_buffer [of E this3 "[]"] by simp
      then show ?thesis
        unfolding p using False ext_inv_scanning [OF inv3 nb refl, of E] by simp
    qed
  qed
qed

lemma ext_inv_process:
  assumes "ext_inv this t"
  shows "ext_inv (process E this chunk) (t @ chunk)"
proof -
  define this1 where "this1 = this\<lparr>buffer := buffer this @ chunk\<rparr>"
  have inv1: "ext_inv this1 (t @ chunk)"
    unfolding this1_def using assms by (rule ext_inv_append)
  have pb: "process E this chunk = process E (this1\<lparr>buffer := []\<rparr>) (buffer this1)"
    using process_buffer [of E this chunk] by (simp add: this1_def)
  show ?thesis
  proof (cases "inBlock this1")
    case False
    then show ?thesis
      unfolding pb using ext_inv_scanning [OF inv1 _ refl] by simp
  next
    case True
    then show ?thesis
      unfolding pb using ext_inv_capturing [OF inv1 _ refl] by simp
  qed
qed

lemma ext_inv_feed: "ext_inv this t \<Longrightarrow> ext_inv (feed E this chunks) (t @ concat chunks)"
proof (induction chunks arbitrary: this t)
  case Nil
  then show ?case by (simp add: feed_def)
next
  case (Cons c cs)
  from Cons.IH [OF ext_inv_process [OF Cons.prems, of E c]] show ?case
    by (simp add: feed_def)
qed

lemma ext_inv_new: "ext_inv (new_CodeExtractor d) []"
  by (simp add: ext_inv_def new_CodeExtractor_def)

lemma ext_inv_turn: "ext_inv (feed E (new_CodeExtractor d) chunks) (concat chunks)"
  using ext_inv_feed [OF ext_inv_new, of E d chunks] by simp

section \<open>Artifacts and chunk boundaries\<close>

text \<open>
  Claim C2 fails on the code. A reply with one fenced block yields no artifact when it is
  fed as a single chunk: \<open>process\<close> returns as soon as it has matched the opening line,
  without looking at the rest of the buffer, and \<open>flush\<close> emits nothing while \<open>code\<close> is
  empty. Cut after the opening line, the same reply yields its artifact.
\<close>

theorem one_chunk_reply_loses_block:
  "map artifact (extract_turn E d [''Sure!\<newline>```python:hello.py\<newline>print(1)\<newline>```\<newline>Done.'']) = []
   \<and> map artifact (extract_turn E d [''Sure!\<newline>```python:hello.py\<newline>'', ''print(1)\<newline>```\<newline>Done.''])
       = [(''hello.py'', ''print(1)'')]"
  by code_simp

lemma no_fence_prefix:
  assumes "\<not> has_open_fence (concat chunks)"
  shows "\<not> has_open_fence (concat (take n chunks))"
proof
  assume "has_open_fence (concat (take n chunks))"
  then have "has_open_fence (concat (take n chunks) @ concat (drop n chunks))"
    by (rule has_open_fence_append)
  then have "has_open_fence (concat (take n chunks @ drop n chunks))"
    by (simp only: concat_append)
  with assms show False by simp
qed

lemma no_fence_idle:
  assumes "\<not> has_open_fence (concat chunks)"
  shows "\<not> inBlock (feed E (new_CodeExtractor d) chunks)
         \<and> extractedFiles (feed E (new_CodeExtractor d) chunks) = []"
proof -
  have "ext_inv (feed E (new_CodeExtractor d) chunks) (concat chunks)"
    by (rule ext_inv_turn)
  then have "inBlock (feed E (new_CodeExtractor d) chunks) \<longrightarrow> has_open_fence (concat chunks)"
    and "\<forall>f \<in> set (extractedFiles (feed E (new_CodeExtractor d) chunks)). has_open_fence (concat chunks)"
    unfolding ext_inv_def has_open_fence_def by (blast, blast intro: from_fence_has_open_fence [unfolded has_open_fence_def])
  then show ?thesis
    using assms by (cases "extractedFiles (feed E (new_CodeExtractor d) chunks)") auto
qed

lemma turn_from_fence:
  "\<forall>f \<in> set (extract_turn E d chunks). from_fence (concat chunks) f"
proof -
  define this where "this = feed E (new_CodeExtractor d) chunks"
  have inv: "ext_inv this (concat chunks)"
    unfolding this_def by (rule ext_inv_turn)
  then have old: "\<forall>f \<in> set (extractedFiles this). from_fence (concat chunks) f"
    unfolding ext_inv_def by blast
  show ?thesis
  proof (cases "inBlock this \<and> code this \<noteq> []")
    case False
    then have "extract_turn E d chunks = extractedFiles this"
      by (auto simp: extract_turn_def flush_def this_def Let_def)
    with old show ?thesis by simp
  next
    case True
    let ?f = "current_file E (this\<lparr>code := code this @ buffer this\<rparr>)"
    from True have ex: "extract_turn E d chunks = extractedFiles this @ [?f]"
      by (simp add: extract_turn_def flush_def this_def Let_def)
    from inv True obtain pre w p
      where t: "concat chunks = pre @ fence w p @ code this @ buffer this" and ok: "tag_ok w" "path_ok p"
        and fn: "CodeExtractor.filename this = trim p"
      unfolding ext_inv_def by blast
    have tt: "concat chunks = pre @ fence w p @ (code this @ buffer this) @ []"
      using t by simp
    have fl: "PendingFile.filename ?f = trim p" "PendingFile.content ?f = trim (code this @ buffer this)"
      using fn by (simp_all add: current_file_def Let_def)
    have "from_fence (concat chunks) ?f"
      unfolding from_fence_def
      by (intro exI conjI) (rule tt, rule ok(1), rule ok(2), rule fl(1), rule fl(2))
    with old ex show ?thesis by simp
  qed
qed

text \<open>
  Claim C10. For every stream and every way of cutting it into chunks: whenever the
  extractor is inside a block, what it has captured (\<open>code\<close> and the buffer) is directly
  preceded in the text by an opening fence line whose tag is made of word characters
  only, the line that names the current file; and every artifact, emitted on the way or
  by \<open>flush\<close>, comes from such a line. So no other fence (one tagged \<^verbatim>\<open>c++\<close> or
  \<^verbatim>\<open>objective-c\<close>, or one without the \<^verbatim>\<open>tag:path\<close> part) opens a block or yields an
  artifact, whatever else the stream holds; and a stream without any such line never
  enters a block, after any number of chunks, and yields nothing.
\<close>

theorem block_only_after_word_tag:
  "(inBlock (feed E (new_CodeExtractor d) chunks) \<longrightarrow>
      (\<exists>pre w p. concat chunks
            = pre @ fence w p @ code (feed E (new_CodeExtractor d) chunks)
                @ buffer (feed E (new_CodeExtractor d) chunks)
          \<and> tag_ok w \<and> path_ok p
          \<and> CodeExtractor.filename (feed E (new_CodeExtractor d) chunks) = trim p))
   \<and> (\<forall>f \<in> set (extractedFiles (feed E (new_CodeExtractor d) chunks)). from_fence (concat chunks) f)
   \<and> (\<forall>f \<in> set (extract_turn E d chunks). from_fence (concat chunks) f)
   \<and> (\<not> has_open_fence (concat chunks) \<longrightarrow>
        (\<forall>n. \<not> inBlock (feed E (new_CodeExtractor d) (take n chunks))
            \<and> extractedFiles (feed E (new_CodeExtractor d) (take n chunks)) = [])
        \<and> extract_turn E d chunks = [])"
proof -
  have inv: "ext_inv (feed E (new_CodeExtractor d) chunks) (concat chunks)"
    by (rule ext_inv_turn)
  have none: "(\<forall>n. \<not> inBlock (feed E (new_CodeExtractor d) (take n chunks))
            \<and> extractedFiles (feed E (new_CodeExtractor d) (take n chunks)) = [])
        \<and> extract_turn E d chunks = []" if nf: "\<not> has_open_fence (concat chunks)"
  proof -
    have "extract_turn E d chunks = []"
      using no_fence_idle [OF nf, of E d] by (simp add: extract_turn_def flush_def)
    then show ?thesis
      using no_fence_idle [OF no_fence_prefix [OF nf], where E = E and d = d] by blast
  qed
  show ?thesis
    using inv turn_from_fence [of E d chunks] none unfolding ext_inv_def by blast
qed

theorem block_only_after_word_tag_witness:
  "inBlock (feed example_env (new_CodeExtractor ''/w'')
       [''```c++:a.cpp\<newline>int x;\<newline>```\<newline>'', ''```py:b.py\<newline>''])
   \<and> (\<exists>pre w p. concat [''```c++:a.cpp\<newline>int x;\<newline>```\<newline>'', ''```py:b.py\<newline>'']
            = pre @ fence w p \<and> tag_ok w \<and> path_ok p \<and> ''b.py'' = trim p)
   \<and> map artifact (extract_turn example_env ''/w''
         [''```c++:a.cpp\<newline>int x;\<newline>```\<newline>'', ''```py:b.py\<newline>'', ''print(1)\<newline>```\<newline>''])
       = [(''b.py'', ''print(1)'')]
   \<and> from_fence (concat [''```c++:a.cpp\<newline>int x;\<newline>```\<newline>'', ''```py:b.py\<newline>'',
          ''print(1)\<newline>```\<newline>''])
        (hd (extract_turn example_env ''/w''
          [''```c++:a.cpp\<newline>int x;\<newline>```\<newline>'', ''```py:b.py\<newline>'', ''print(1)\<newline>```\<newline>'']))
   \<and> \<not> has_open_fence (concat [''```c++:main.cpp\<newline>int x;'', ''\<newline>```\<newline>''])
   \<and> \<not> inBlock (feed example_env (new_CodeExtractor ''/w'')
         (take 1 [''```c++:main.cpp\<newline>int x;'', ''\<newline>```\<newline>'']))
   \<and> extract_turn example_env ''/w'' [''```c++:main.cpp\<newline>int x;'', ''\<newline>```\<newline>''] = []
   \<and> \<not> has_open_fence (concat [''```python\<newline>print(1)\<newline>'', ''```\<newline>''])
   \<and> extract_turn example_env ''/w'' [''```python\<newline>print(1)\<newline>'', ''```\<newline>''] = []"
proof -
  let ?two = "[''```c++:a.cpp\<newline>int x;\<newline>```\<newline>'', ''```py:b.py\<newline>'']"
  let ?three = "[''```c++:a.cpp\<newline>int x;\<newline>```\<newline>'', ''```py:b.py\<newline>'', ''print(1)\<newline>```\<newline>'']"
  have st: "feed example_env (new_CodeExtractor ''/w'') ?two
      = \<lparr>buffer = [], inBlock = True, CodeExtractor.filename = ''b.py'', code = [], dir = ''/w'',
         extractedFiles = []\<rparr>"
    by code_simp
  have x: "map artifact (extract_turn example_env ''/w'' ?three) = [(''b.py'', ''print(1)'')]"
    by code_simp
  have "regex_match (concat [''```c++:main.cpp\<newline>int x;'', ''\<newline>```\<newline>'']) = None"
    by code_simp
  then have a: "\<not> has_open_fence (concat [''```c++:main.cpp\<newline>int x;'', ''\<newline>```\<newline>''])"
    by (simp add: has_open_fence_iff del: concat.simps regex_match.simps)
  have "regex_match (concat [''```python\<newline>print(1)\<newline>'', ''```\<newline>'']) = None"
    by code_simp
  then have b: "\<not> has_open_fence (concat [''```python\<newline>print(1)\<newline>'', ''```\<newline>''])"
    by (simp add: has_open_fence_iff del: concat.simps regex_match.simps)
  have open_block: "inBlock (feed example_env (new_CodeExtractor ''/w'') ?two)
      \<and> (\<exists>pre w p. concat ?two = pre @ fence w p \<and> tag_ok w \<and> path_ok p \<and> ''b.py'' = trim p)"
    using block_only_after_word_tag [where E = example_env and d = "''/w''" and chunks = ?two]
    unfolding st by simp
  have "extract_turn example_env ''/w'' ?three \<noteq> []"
    using x by auto
  then have "hd (extract_turn example_env ''/w'' ?three) \<in> set (extract_turn example_env ''/w'' ?three)"
    by (rule hd_in_set)
  then have closed_block: "from_fence (concat ?three) (hd (extract_turn example_env ''/w'' ?three))"
    using block_only_after_word_tag [where E = example_env and d = "''/w''" and chunks = ?three]
    by blast
  show ?thesis
    using open_block x a b closed_block
      block_only_after_word_tag [where E = example_env and d = "''/w''"
        and chunks = "[''```c++:main.cpp\<newline>int x;'', ''\<newline>```\<newline>'']"]
      block_only_after_word_tag [where E = example_env and d = "''/w''"
        and chunks = "[''```python\<newline>print(1)\<newline>'', ''```\<newline>'']"]
    by blast
qed

text \<open>
  Claim C4 fails on the code. \<open>flush\<close> tests \<open>code\<close> before it appends the buffer to
  it: a stream that ends inside a block whose body is still in the buffer only, because
  the block was opened by the last chunk or because the body is at most ten characters
  long, yields no artifact. The same body is emitted when the block is closed, and a
  longer open body is emitted.
\<close>

theorem unterminated_block_dropped:
  "inBlock (feed E (new_CodeExtractor d) [''```py:a.py\<newline>x = 1\<newline>''])
   \<and> buffer (feed E (new_CodeExtractor d) [''```py:a.py\<newline>x = 1\<newline>'']) = ''x = 1\<newline>''
   \<and> extract_turn E d [''```py:a.py\<newline>x = 1\<newline>''] = []
   \<and> inBlock (feed E (new_CodeExtractor d) [''```py:a.py\<newline>'', ''x = 1\<newline>''])
   \<and> extract_turn E d [''```py:a.py\<newline>'', ''x = 1\<newline>''] = []
   \<and> map artifact (extract_turn E d [''```py:a.py\<newline>'', ''x = 1\<newline>```''])
       = [(''a.py'', ''x = 1'')]
   \<and> map artifact (extract_turn E d [''```py:a.py\<newline>'', ''x = 1\<newline>print(x)\<newline>''])
       = [(''a.py'', ''x = 1\<newline>print(x)'')]"
  by code_simp

section \<open>The extractor at the end of a failed turn\<close>








end
